theory Spec2Isabelle
  imports Main "HOL-Library.Multiset"
begin

section \<open>The state adapter consumed by minimax.js\<close>

text \<open>
  \<^verbatim>\<open>minimax.js\<close> never builds a state; it reads three things from the state object it is
  handed: the field \<^verbatim>\<open>state.nextMovePlayer\<close>, the method \<^verbatim>\<open>state.nextStates()\<close> and the
  method \<^verbatim>\<open>state.numLines(number, player)\<close>. A position is modelled as exactly these three
  observations. The two player marks \<^verbatim>\<open>'x'\<close> and \<^verbatim>\<open>'o'\<close> are the two constructors of
  \<open>player\<close> (the source documents \<^verbatim>\<open>maximizingPlayer: 'x' or 'o'\<close>).

  Scores are JavaScript numbers. Every score the file computes is an integer combination of
  line counts and powers of 100, so scores are modelled as \<open>int\<close>; the depth is an
  \<open>int\<close> as well, because the source compares it with \<^verbatim>\<open>depth === 0\<close> and decrements it
  without any lower bound.
\<close>

datatype player = PlayerX | PlayerO

datatype position =
  Position (nextMovePlayer: player) (numLines: "nat \<Rightarrow> player \<Rightarrow> nat")
    (nextStates: "position list")

section \<open>minimaxWrapper, heuristic, isBaseCase\<close>

definition DEPTH :: int where
  "DEPTH = 4"

text \<open>\<^verbatim>\<open>const minimizingPlayer = (maximizingPlayer == 'x') ? 'o' : 'x';\<close>\<close>

definition minimizingPlayer :: "player \<Rightarrow> player" where
  "minimizingPlayer maximizingPlayer =
     (if maximizingPlayer = PlayerX then PlayerO else PlayerX)"

text \<open>
  \<^verbatim>\<open>[2,3,4].reduce((total, numLines) =>
      total + state.numLines(numLines, player) * Math.pow(100, numLines), 0)\<close>
\<close>

definition advantageFunction :: "position \<Rightarrow> player \<Rightarrow> int" where
  "advantageFunction state player =
     foldl (\<lambda>total n. total + int (numLines state n player) * 100 ^ n) 0 [2, 3, 4]"

definition heuristic :: "position \<Rightarrow> player \<Rightarrow> int" where
  "heuristic state maximizingPlayer =
     advantageFunction state maximizingPlayer
       - advantageFunction state (minimizingPlayer maximizingPlayer)"

definition isBaseCase :: "position \<Rightarrow> int \<Rightarrow> bool" where
  "isBaseCase state depth =
     (let possibleSuccessorStates = nextStates state;
          numberPossibleSuccessorStates = length possibleSuccessorStates
      in numberPossibleSuccessorStates = 0 \<or> depth = 0)"

section \<open>minimax\<close>

text \<open>
  \<^verbatim>\<open>Math.max.apply(null, nextValues)\<close> and \<^verbatim>\<open>Math.min.apply(null, nextValues)\<close> scan the
  array from the left. The source reaches them only in the branch where \<^verbatim>\<open>isBaseCase\<close> is
  false, that is with at least one successor, so only the non-empty case is given an
  equation (on an empty array JavaScript yields \<^verbatim>\<open>-Infinity\<close> and \<^verbatim>\<open>Infinity\<close>, which are
  not scores of the model).
\<close>

fun Math_max :: "int list \<Rightarrow> int" where
  "Math_max (v # vs) = fold max vs v"

fun Math_min :: "int list \<Rightarrow> int" where
  "Math_min (v # vs) = fold min vs v"

text \<open>
  The recursion descends into the successors of the state; a position is a finite tree, so
  it terminates for every depth, also a negative one (which never meets \<^verbatim>\<open>depth === 0\<close>).
\<close>

function minimax :: "position \<Rightarrow> int \<Rightarrow> player \<Rightarrow> int" where
  "minimax state depth maximizingPlayer =
     (if isBaseCase state depth then heuristic state maximizingPlayer
      else
        let possibleStates = nextStates state;
            currentPlayer = nextMovePlayer state;
            nextValues = map (\<lambda>s. minimax s (depth - 1) maximizingPlayer) possibleStates
        in if currentPlayer = maximizingPlayer then Math_max nextValues
           else Math_min nextValues)"
  by pat_completeness auto
termination
proof (relation "measure (\<lambda>(state, depth, maximizingPlayer). size state)")
  show "wf (measure (\<lambda>(state, depth, maximizingPlayer). size state))"
    by simp
next
  fix state :: position and depth :: int and maximizingPlayer :: player
    and x :: "position list" and xa :: player and s :: position
  assume "x = nextStates state" and "s \<in> set x"
  then have "size s < size state"
    by (cases state) (auto simp: less_Suc_eq_le dest: size_list_estimation')
  then show "((s, depth - 1, maximizingPlayer), (state, depth, maximizingPlayer))
      \<in> measure (\<lambda>(state, depth, maximizingPlayer). size state)"
    by simp
qed

declare minimax.simps [simp del]

section \<open>minimaxAlphaBeta\<close>

text \<open>
  \<^verbatim>\<open>minimaxAlphaBetaInner\<close> is a closure over \<^verbatim>\<open>maximizingPlayer\<close>, which becomes its first
  argument. Its two \<^verbatim>\<open>for\<close> loops are \<open>maxLoop\<close> and \<open>minLoop\<close>: they run over the
  successors still to be visited and carry the loop's mutable variables \<^verbatim>\<open>currentBest\<close>,
  \<^verbatim>\<open>alpha\<close> and \<^verbatim>\<open>beta\<close>. The early \<^verbatim>\<open>return currentBest\<close> inside a loop is the branch
  that does not recurse.
\<close>

function minimaxAlphaBetaInner :: "player \<Rightarrow> position \<Rightarrow> int \<Rightarrow> int \<Rightarrow> int \<Rightarrow> int"
  and maxLoop :: "player \<Rightarrow> position list \<Rightarrow> int \<Rightarrow> int \<Rightarrow> int \<Rightarrow> int \<Rightarrow> int"
  and minLoop :: "player \<Rightarrow> position list \<Rightarrow> int \<Rightarrow> int \<Rightarrow> int \<Rightarrow> int \<Rightarrow> int"
where
  "minimaxAlphaBetaInner maximizingPlayer state depth alpha beta =
     (if isBaseCase state depth then heuristic state maximizingPlayer
      else
        let possibleStates = nextStates state;
            currentPlayer = nextMovePlayer state
        in if currentPlayer = maximizingPlayer
           then maxLoop maximizingPlayer possibleStates depth alpha alpha beta
           else minLoop maximizingPlayer possibleStates depth beta alpha beta)"
| "maxLoop maximizingPlayer [] depth currentBest alpha beta = currentBest"
| "maxLoop maximizingPlayer (futureState # rest) depth currentBest alpha beta =
     (let v = minimaxAlphaBetaInner maximizingPlayer futureState (depth - 1) alpha beta;
          currentBest' = max v currentBest;
          alpha' = max v alpha
      in if alpha' > beta then currentBest'
         else maxLoop maximizingPlayer rest depth currentBest' alpha' beta)"
| "minLoop maximizingPlayer [] depth currentBest alpha beta = currentBest"
| "minLoop maximizingPlayer (futureState # rest) depth currentBest alpha beta =
     (let v = minimaxAlphaBetaInner maximizingPlayer futureState (depth - 1) alpha beta;
          currentBest' = min v currentBest;
          beta' = min v beta
      in if alpha > beta' then currentBest'
         else minLoop maximizingPlayer rest depth currentBest' alpha beta')"
  by pat_completeness auto
termination
proof (relation "measure (\<lambda>a. case a of
            Inl (m, state, d, al, be) \<Rightarrow> size state
          | Inr (Inl (m, xs, d, c, al, be)) \<Rightarrow> size_list size xs
          | Inr (Inr (m, xs, d, c, al, be)) \<Rightarrow> size_list size xs)", goal_cases)
  case 1
  show ?case by simp
next
  case (2 maximizingPlayer state depth alpha beta x xa)
  then show ?case by (cases state) simp
next
  case (3 maximizingPlayer state depth alpha beta x xa)
  then show ?case by (cases state) simp
qed simp_all

declare minimaxAlphaBetaInner.simps [simp del]

definition minimaxAlphaBeta :: "position \<Rightarrow> int \<Rightarrow> player \<Rightarrow> int" where
  "minimaxAlphaBeta state depth maximizingPlayer =
     minimaxAlphaBetaInner maximizingPlayer state depth (- 10000000) 10000000"

definition minimaxWrapper :: "position \<Rightarrow> player \<Rightarrow> int" where
  "minimaxWrapper state maximizingPlayer = minimaxAlphaBeta state DEPTH maximizingPlayer"

section \<open>Notions used to state the properties\<close>

text \<open>
  \<open>agree alpha beta r v\<close>: the score \<open>r\<close> found with the window \<open>(alpha, beta)\<close> carries
  the same information about the exact score \<open>v\<close> as the window allows: it is \<open>v\<close> itself
  when \<open>v\<close> lies in the window, and it lies on the same side of the window as \<open>v\<close>
  otherwise.
\<close>

definition agree :: "int \<Rightarrow> int \<Rightarrow> int \<Rightarrow> int \<Rightarrow> bool" where
  "agree alpha beta r v \<longleftrightarrow>
     (v \<le> alpha \<longrightarrow> r \<le> alpha) \<and> (beta \<le> v \<longrightarrow> beta \<le> r) \<and>
     (alpha \<le> v \<and> v \<le> beta \<longrightarrow> r = v)"

text \<open>
  \<open>reordered P P'\<close>: \<open>P'\<close> is \<open>P\<close> with the successor sequence of every node permuted;
  next mover and line counts are the same.
\<close>

inductive reordered :: "position \<Rightarrow> position \<Rightarrow> bool" where
  "list_all2 reordered ss ts \<Longrightarrow> mset ts' = mset ts \<Longrightarrow>
   reordered (Position p f ss) (Position p f ts')"

section \<open>Example positions\<close>

text \<open>
  Feature tables: no line of length 2, 3 or 4 for anybody, and \<open>k\<close> lines of length 4 for
  one player and nothing else.
\<close>

definition noLines :: "nat \<Rightarrow> player \<Rightarrow> nat" where
  "noLines n p = 0"

definition fourFor :: "player \<Rightarrow> nat \<Rightarrow> nat \<Rightarrow> player \<Rightarrow> nat" where
  "fourFor winner k n p = (if n = 4 \<and> p = winner then k else 0)"

text \<open>
  \<open>xForcedLoss\<close>: x is to move and has one legal move, after which o has one legal move,
  which completes a line of four for o.
\<close>

definition oHasFour :: position where
  "oHasFour = Position PlayerX (fourFor PlayerO 1) []"

definition oToMove :: position where
  "oToMove = Position PlayerO noLines [oHasFour]"

definition xForcedLoss :: position where
  "xForcedLoss = Position PlayerX noLines [oToMove]"

text \<open>
  \<open>xWinsEither\<close>: x is to move and has two legal moves; one completes one line of four,
  the other completes two at once. \<open>xWinsEitherSwapped\<close> is the same position with the two
  successors listed in the other order.
\<close>

definition xFourOnce :: position where
  "xFourOnce = Position PlayerO (fourFor PlayerX 1) []"

definition xFourTwice :: position where
  "xFourTwice = Position PlayerO (fourFor PlayerX 2) []"

definition xWinsEither :: position where
  "xWinsEither = Position PlayerX noLines [xFourOnce, xFourTwice]"

definition xWinsEitherSwapped :: position where
  "xWinsEitherSwapped = Position PlayerX noLines [xFourTwice, xFourOnce]"

lemmas example_defs = noLines_def fourFor_def oHasFour_def oToMove_def xForcedLoss_def
  xFourOnce_def xFourTwice_def xWinsEither_def xWinsEitherSwapped_def

lemmas run_defs = minimax.simps minimaxAlphaBetaInner.simps minimaxAlphaBeta_def
  isBaseCase_def heuristic_def advantageFunction_def minimizingPlayer_def

section \<open>The static evaluator\<close>

text \<open>
  Claim C3. For every position \<open>P\<close> and maximizing player \<open>M\<close>, \<open>heuristic P M\<close> is the
  advantage of \<open>M\<close> minus the advantage of the other player, where the advantage of a
  player \<open>p\<close> is the sum over the line lengths \<open>L\<close> in \<open>{2, 3, 4}\<close> of
  \<open>numLines P L p * 100 ^ L\<close>. The other player is written out: for x it is o, for o it
  is x, which covers every \<open>M\<close>.
\<close>

theorem heuristic_advantage_difference:
  "heuristic P PlayerX =
     (\<Sum>L\<in>{2, 3, 4}. int (numLines P L PlayerX) * 100 ^ L)
       - (\<Sum>L\<in>{2, 3, 4}. int (numLines P L PlayerO) * 100 ^ L) \<and>
   heuristic P PlayerO =
     (\<Sum>L\<in>{2, 3, 4}. int (numLines P L PlayerO) * 100 ^ L)
       - (\<Sum>L\<in>{2, 3, 4}. int (numLines P L PlayerX) * 100 ^ L) \<and>
   heuristic P M =
     (\<Sum>L\<in>{2, 3, 4}. int (numLines P L M) * 100 ^ L)
       - (\<Sum>L\<in>{2, 3, 4}.
            int (numLines P L (case M of PlayerX \<Rightarrow> PlayerO | PlayerO \<Rightarrow> PlayerX)) * 100 ^ L)"
  by (cases M) (simp_all add: heuristic_def advantageFunction_def minimizingPlayer_def)

text \<open>
  Claim C8. The evaluator is antisymmetric: for every position \<open>P\<close> and player \<open>M\<close>,
  \<open>heuristic P M = - heuristic P (other M)\<close>, where the other player of x is o and the
  other player of o is x.
\<close>

theorem heuristic_antisymmetric:
  "heuristic P M = - heuristic P (minimizingPlayer M) \<and>
   minimizingPlayer PlayerX = PlayerO \<and> minimizingPlayer PlayerO = PlayerX"
  by (cases M) (simp_all add: heuristic_def minimizingPlayer_def)

section \<open>The cutoff policy and the base cases of both searches\<close>

text \<open>
  Claim C4. \<open>isBaseCase P D\<close> is true exactly when \<open>D\<close> is 0 or \<open>P\<close> has zero successors,
  and both searches branch on this same test: each returns the evaluator's score when it
  holds and goes on to the successors when it does not.
\<close>

theorem isBaseCase_iff_shared_cutoff:
  "(isBaseCase P D \<longleftrightarrow> D = 0 \<or> length (nextStates P) = 0) \<and>
   minimax P D M =
     (if isBaseCase P D then heuristic P M
      else if nextMovePlayer P = M
           then Math_max (map (\<lambda>S. minimax S (D - 1) M) (nextStates P))
           else Math_min (map (\<lambda>S. minimax S (D - 1) M) (nextStates P))) \<and>
   minimaxAlphaBetaInner M P D alpha beta =
     (if isBaseCase P D then heuristic P M
      else if nextMovePlayer P = M
           then maxLoop M (nextStates P) D alpha alpha beta
           else minLoop M (nextStates P) D beta alpha beta)"
  by (subst minimax.simps, subst minimaxAlphaBetaInner.simps) (auto simp: isBaseCase_def)

text \<open>
  Claim C6. For a position \<open>P\<close> with no successors, every depth \<open>D \<ge> 0\<close> and every
  maximizing player \<open>M\<close>, both \<open>minimax P D M\<close> and \<open>minimaxAlphaBeta P D M\<close> are exactly
  \<open>heuristic P M\<close>.
\<close>

theorem search_no_successors_is_heuristic:
  assumes "nextStates P = []" and "0 \<le> D"
  shows "minimax P D M = heuristic P M \<and> minimaxAlphaBeta P D M = heuristic P M"
  using assms(1)
  by (simp add: minimax.simps minimaxAlphaBetaInner.simps minimaxAlphaBeta_def isBaseCase_def)

theorem search_no_successors_is_heuristic_witness:
  "nextStates oHasFour = [] \<and> (0::int) \<le> 3 \<and>
   minimax oHasFour 3 PlayerX = - 100000000 \<and>
   minimaxAlphaBeta oHasFour 3 PlayerX = - 100000000"
  using search_no_successors_is_heuristic [of oHasFour 3 PlayerX]
  by (simp add: example_defs heuristic_def advantageFunction_def minimizingPlayer_def)

text \<open>
  Claim C7. At depth 0 both searches return the static evaluation: for every position \<open>P\<close>
  and maximizing player \<open>M\<close>, \<open>minimax P 0 M\<close> and \<open>minimaxAlphaBeta P 0 M\<close> are exactly
  \<open>heuristic P M\<close>.
\<close>

theorem search_depth_zero_is_heuristic:
  "minimax P 0 M = heuristic P M \<and> minimaxAlphaBeta P 0 M = heuristic P M"
  by (simp add: minimax.simps minimaxAlphaBetaInner.simps minimaxAlphaBeta_def isBaseCase_def)

section \<open>The decision wrapper\<close>

text \<open>
  Claim C9. For every position \<open>P\<close> and maximizing player \<open>M\<close>, \<open>minimaxWrapper P M\<close> is the
  pruned search's score at the configured depth, \<open>minimaxAlphaBeta P DEPTH M\<close>, and the
  constant \<open>DEPTH\<close> is 4.
\<close>

theorem minimaxWrapper_is_minimaxAlphaBeta_at_DEPTH:
  "minimaxWrapper P M = minimaxAlphaBeta P DEPTH M \<and> DEPTH = 4"
  by (simp add: minimaxWrapper_def DEPTH_def)

section \<open>The plain search\<close>

lemma Math_max_eq_Max: "vs \<noteq> [] \<Longrightarrow> Math_max vs = Max (set vs)"
proof (cases vs)
  case (Cons a list)
  then show ?thesis using Max.set_eq_fold [of a list] by simp
qed simp

lemma Math_min_eq_Min: "vs \<noteq> [] \<Longrightarrow> Math_min vs = Min (set vs)"
proof (cases vs)
  case (Cons a list)
  then show ?thesis using Min.set_eq_fold [of a list] by simp
qed simp

text \<open>
  Claim C2. Whenever the cutoff policy does not fire at \<open>P\<close> with \<open>D\<close>, \<open>minimax P D M\<close> is
  the maximum over the successors \<open>S\<close> of \<open>P\<close> of \<open>minimax S (D - 1) M\<close> if the next mover of
  \<open>P\<close> is \<open>M\<close>, and the minimum of the same child scores otherwise; every recursive call
  gets the same \<open>M\<close>.
\<close>

theorem minimax_max_min_of_children:
  assumes "\<not> isBaseCase P D"
  shows "minimax P D M =
     (if nextMovePlayer P = M
      then Max ((\<lambda>S. minimax S (D - 1) M) ` set (nextStates P))
      else Min ((\<lambda>S. minimax S (D - 1) M) ` set (nextStates P)))"
proof -
  from assms have ne: "map (\<lambda>S. minimax S (D - 1) M) (nextStates P) \<noteq> []"
    by (simp add: isBaseCase_def)
  show ?thesis
    using assms Math_max_eq_Max [OF ne] Math_min_eq_Min [OF ne]
    by (subst minimax.simps) simp
qed

theorem minimax_max_min_of_children_witness:
  "\<not> isBaseCase xWinsEither 1 \<and> nextMovePlayer xWinsEither = PlayerX \<and>
   minimax xWinsEither 1 PlayerX = 200000000 \<and>
   \<not> isBaseCase oToMove 1 \<and> nextMovePlayer oToMove \<noteq> PlayerX \<and>
   minimax oToMove 1 PlayerX = - 100000000"
  using minimax_max_min_of_children [of xWinsEither 1 PlayerX]
    minimax_max_min_of_children [of oToMove 1 PlayerX]
  by (simp add: example_defs run_defs)

section \<open>The pruned search\<close>

text \<open>The running best of a loop never falls below (max) or rises above (min) its seed.\<close>

lemma maxLoop_ge: "currentBest \<le> maxLoop M xs D currentBest alpha beta"
proof (induction xs arbitrary: currentBest alpha)
  case Nil
  show ?case by simp
next
  case (Cons s rest)
  let ?v = "minimaxAlphaBetaInner M s (D - 1) alpha beta"
  have "max ?v currentBest \<le> maxLoop M rest D (max ?v currentBest) (max ?v alpha) beta"
    by (rule Cons.IH)
  then show ?case by (simp add: Let_def)
qed

lemma minLoop_le: "minLoop M xs D currentBest alpha beta \<le> currentBest"
proof (induction xs arbitrary: currentBest beta)
  case Nil
  show ?case by simp
next
  case (Cons s rest)
  let ?v = "minimaxAlphaBetaInner M s (D - 1) alpha beta"
  have "minLoop M rest D (min ?v currentBest) alpha (min ?v beta) \<le> min ?v currentBest"
    by (rule Cons.IH)
  then show ?case by (simp add: Let_def)
qed

text \<open>
  Claim C10. In every call \<open>minimaxAlphaBetaInner M P D alpha beta\<close> where the cutoff
  policy does not fire: if the next mover of \<open>P\<close> is the maximizing player, the result is at
  least the incoming \<open>alpha\<close>; otherwise it is at most the incoming \<open>beta\<close>. At the top
  level the bounds are the sentinels \<open>-10000000\<close> and \<open>10000000\<close>.
\<close>

theorem minimaxAlphaBetaInner_clamped_by_seed:
  assumes "\<not> isBaseCase P D"
  shows "(nextMovePlayer P = M \<longrightarrow>
            alpha \<le> minimaxAlphaBetaInner M P D alpha beta \<and>
            - 10000000 \<le> minimaxAlphaBeta P D M) \<and>
         (nextMovePlayer P \<noteq> M \<longrightarrow>
            minimaxAlphaBetaInner M P D alpha beta \<le> beta \<and>
            minimaxAlphaBeta P D M \<le> 10000000)"
  using assms maxLoop_ge [of alpha M "nextStates P" D alpha beta]
    minLoop_le [of M "nextStates P" D beta alpha beta]
    maxLoop_ge [of "- 10000000" M "nextStates P" D "- 10000000" 10000000]
    minLoop_le [of M "nextStates P" D 10000000 "- 10000000" 10000000]
  by (simp add: minimaxAlphaBeta_def minimaxAlphaBetaInner.simps)

theorem minimaxAlphaBetaInner_clamped_by_seed_witness:
  "\<not> isBaseCase xForcedLoss 2 \<and> nextMovePlayer xForcedLoss = PlayerX \<and>
   - 10000000 \<le> minimaxAlphaBetaInner PlayerX xForcedLoss 2 (- 10000000) 10000000 \<and>
   - 10000000 \<le> minimaxAlphaBeta xForcedLoss 2 PlayerX \<and>
   \<not> isBaseCase oToMove 1 \<and> nextMovePlayer oToMove \<noteq> PlayerX \<and>
   minimaxAlphaBetaInner PlayerX oToMove 1 (- 10000000) 10000000 \<le> 10000000 \<and>
   minimaxAlphaBeta oToMove 1 PlayerX \<le> 10000000"
  using minimaxAlphaBetaInner_clamped_by_seed [of xForcedLoss 2 PlayerX "- 10000000" 10000000]
    minimaxAlphaBetaInner_clamped_by_seed [of oToMove 1 PlayerX "- 10000000" 10000000]
  by (simp add: example_defs isBaseCase_def)

section \<open>Pruned search against plain search\<close>

lemma fold_max_ge: "c \<le> fold max vs (c::int)"
proof (induction vs arbitrary: c)
  case Nil
  show ?case by simp
next
  case (Cons v vs)
  have "max v c \<le> fold max vs (max v c)" by (rule Cons.IH)
  then show ?case by simp
qed

lemma fold_min_le: "fold min vs (c::int) \<le> c"
proof (induction vs arbitrary: c)
  case Nil
  show ?case by simp
next
  case (Cons v vs)
  have "fold min vs (min v c) \<le> min v c" by (rule Cons.IH)
  then show ?case by simp
qed

lemma fold_max_seed: "vs \<noteq> [] \<Longrightarrow> fold max vs (c::int) = max c (Math_max vs)"
proof -
  assume ne: "vs \<noteq> []"
  have "fold max vs c = Max (set (c # vs))" by (simp only: Max.set_eq_fold)
  also have "\<dots> = max c (Max (set vs))" using ne by simp
  finally show ?thesis using ne by (simp add: Math_max_eq_Max)
qed

lemma fold_min_seed: "vs \<noteq> [] \<Longrightarrow> fold min vs (c::int) = min c (Math_min vs)"
proof -
  assume ne: "vs \<noteq> []"
  have "fold min vs c = Min (set (c # vs))" by (simp only: Min.set_eq_fold)
  also have "\<dots> = min c (Min (set vs))" using ne by simp
  finally show ?thesis using ne by (simp add: Math_min_eq_Min)
qed

lemma alphabeta_window:
  "alpha \<le> beta \<Longrightarrow>
     agree alpha beta (minimaxAlphaBetaInner M state depth alpha beta) (minimax state depth M)"
  "alpha \<le> beta \<Longrightarrow> currentBest = alpha \<Longrightarrow>
     (fold max (map (\<lambda>s. minimax s (depth - 1) M) xs) alpha \<le> beta \<longrightarrow>
        maxLoop M xs depth currentBest alpha beta
          = fold max (map (\<lambda>s. minimax s (depth - 1) M) xs) alpha) \<and>
     (beta \<le> fold max (map (\<lambda>s. minimax s (depth - 1) M) xs) alpha \<longrightarrow>
        beta \<le> maxLoop M xs depth currentBest alpha beta)"
  "alpha \<le> beta \<Longrightarrow> currentBest = beta \<Longrightarrow>
     (alpha \<le> fold min (map (\<lambda>s. minimax s (depth - 1) M) xs) beta \<longrightarrow>
        minLoop M xs depth currentBest alpha beta
          = fold min (map (\<lambda>s. minimax s (depth - 1) M) xs) beta) \<and>
     (fold min (map (\<lambda>s. minimax s (depth - 1) M) xs) beta \<le> alpha \<longrightarrow>
        minLoop M xs depth currentBest alpha beta \<le> alpha)"
proof (induction M state depth alpha beta and M xs depth currentBest alpha beta
    and M xs depth currentBest alpha beta rule: minimaxAlphaBetaInner_maxLoop_minLoop.induct)
  case (1 M state depth alpha beta)
  show ?case
  proof (cases "isBaseCase state depth")
    case True
    then show ?thesis
      by (simp add: minimax.simps minimaxAlphaBetaInner.simps agree_def)
  next
    case False
    let ?vs = "map (\<lambda>s. minimax s (depth - 1) M) (nextStates state)"
    from False have ne: "?vs \<noteq> []" by (simp add: isBaseCase_def)
    show ?thesis
    proof (cases "nextMovePlayer state = M")
      case True
      have r: "minimaxAlphaBetaInner M state depth alpha beta
          = maxLoop M (nextStates state) depth alpha alpha beta"
        using False True by (simp add: minimaxAlphaBetaInner.simps)
      have v: "minimax state depth M = Math_max ?vs"
        using False True by (simp add: minimax.simps)
      have w: "fold max ?vs alpha = max alpha (Math_max ?vs)"
        by (rule fold_max_seed [OF ne])
      from "1.IH"(1) [OF False refl refl] True "1.prems"
      have "(fold max ?vs alpha \<le> beta \<longrightarrow>
               maxLoop M (nextStates state) depth alpha alpha beta = fold max ?vs alpha) \<and>
            (beta \<le> fold max ?vs alpha \<longrightarrow>
               beta \<le> maxLoop M (nextStates state) depth alpha alpha beta)"
        by simp
      then show ?thesis
        using "1.prems" unfolding r v w agree_def by auto
    next
      case True': False
      have r: "minimaxAlphaBetaInner M state depth alpha beta
          = minLoop M (nextStates state) depth beta alpha beta"
        using False True' by (simp add: minimaxAlphaBetaInner.simps)
      have v: "minimax state depth M = Math_min ?vs"
        using False True' by (simp add: minimax.simps)
      have w: "fold min ?vs beta = min beta (Math_min ?vs)"
        by (rule fold_min_seed [OF ne])
      from "1.IH"(2) [OF False refl refl] True' "1.prems"
      have "(alpha \<le> fold min ?vs beta \<longrightarrow>
               minLoop M (nextStates state) depth beta alpha beta = fold min ?vs beta) \<and>
            (fold min ?vs beta \<le> alpha \<longrightarrow>
               minLoop M (nextStates state) depth beta alpha beta \<le> alpha)"
        by simp
      then show ?thesis
        using "1.prems" unfolding r v w agree_def by auto
    qed
  qed
next
  case (2 M depth currentBest alpha beta)
  then show ?case by simp
next
  case (3 M futureState rest depth currentBest alpha beta)
  let ?rv = "minimaxAlphaBetaInner M futureState (depth - 1) alpha beta"
  let ?vx = "minimax futureState (depth - 1) M"
  let ?vs = "map (\<lambda>s. minimax s (depth - 1) M) rest"
  have ag: "agree alpha beta ?rv ?vx"
    using "3.IH"(1) "3.prems"(1) by simp
  have cb: "currentBest = alpha" by (rule "3.prems"(2))
  have W: "fold max (map (\<lambda>s. minimax s (depth - 1) M) (futureState # rest)) alpha
      = fold max ?vs (max ?vx alpha)"
    by simp
  show ?case
  proof (cases "beta < max ?rv alpha")
    case True
    then have r: "maxLoop M (futureState # rest) depth currentBest alpha beta = max ?rv alpha"
      by (simp add: cb Let_def)
    from True ag "3.prems"(1) have "beta < ?vx"
      unfolding agree_def by (auto simp: max_def split: if_splits)
    moreover have "max ?vx alpha \<le> fold max ?vs (max ?vx alpha)" by (rule fold_max_ge)
    ultimately have "beta < fold max ?vs (max ?vx alpha)" by simp
    with True show ?thesis unfolding W r by simp
  next
    case False
    then have r: "maxLoop M (futureState # rest) depth currentBest alpha beta
        = maxLoop M rest depth (max ?rv alpha) (max ?rv alpha) beta"
      by (simp add: cb Let_def)
    from False have le: "max ?rv alpha \<le> beta" by (simp only: not_less)
    have ih: "(fold max ?vs (max ?rv alpha) \<le> beta \<longrightarrow>
          maxLoop M rest depth (max ?rv alpha) (max ?rv alpha) beta
            = fold max ?vs (max ?rv alpha)) \<and>
        (beta \<le> fold max ?vs (max ?rv alpha) \<longrightarrow>
          beta \<le> maxLoop M rest depth (max ?rv alpha) (max ?rv alpha) beta)"
      using "3.IH"(2) [OF refl refl refl False le] by (simp add: cb)
    show ?thesis
    proof (cases "?vx \<le> beta")
      case True
      with ag have "max ?rv alpha = max ?vx alpha"
        unfolding agree_def by (auto simp: max_def)
      with ih show ?thesis unfolding W r by simp
    next
      case False
      with ag le have "max ?rv alpha = beta"
        unfolding agree_def by (auto simp: max_def split: if_splits)
      moreover have "beta \<le> fold max ?vs beta" by (rule fold_max_ge)
      moreover have "max ?vx alpha \<le> fold max ?vs (max ?vx alpha)" by (rule fold_max_ge)
      ultimately show ?thesis using ih False unfolding W r by auto
    qed
  qed
next
  case (4 M depth currentBest alpha beta)
  then show ?case by simp
next
  case (5 M futureState rest depth currentBest alpha beta)
  let ?rv = "minimaxAlphaBetaInner M futureState (depth - 1) alpha beta"
  let ?vx = "minimax futureState (depth - 1) M"
  let ?vs = "map (\<lambda>s. minimax s (depth - 1) M) rest"
  have ag: "agree alpha beta ?rv ?vx"
    using "5.IH"(1) "5.prems"(1) by simp
  have cb: "currentBest = beta" by (rule "5.prems"(2))
  have W: "fold min (map (\<lambda>s. minimax s (depth - 1) M) (futureState # rest)) beta
      = fold min ?vs (min ?vx beta)"
    by simp
  show ?case
  proof (cases "min ?rv beta < alpha")
    case True
    then have r: "minLoop M (futureState # rest) depth currentBest alpha beta = min ?rv beta"
      by (simp add: cb Let_def)
    from True ag "5.prems"(1) have "?vx < alpha"
      unfolding agree_def by (auto simp: min_def split: if_splits)
    moreover have "fold min ?vs (min ?vx beta) \<le> min ?vx beta" by (rule fold_min_le)
    ultimately have "fold min ?vs (min ?vx beta) < alpha" by simp
    with True show ?thesis unfolding W r by simp
  next
    case False
    then have r: "minLoop M (futureState # rest) depth currentBest alpha beta
        = minLoop M rest depth (min ?rv beta) alpha (min ?rv beta)"
      by (simp add: cb Let_def)
    from False have le: "alpha \<le> min ?rv beta" by (simp only: not_less)
    have ih: "(alpha \<le> fold min ?vs (min ?rv beta) \<longrightarrow>
          minLoop M rest depth (min ?rv beta) alpha (min ?rv beta)
            = fold min ?vs (min ?rv beta)) \<and>
        (fold min ?vs (min ?rv beta) \<le> alpha \<longrightarrow>
          minLoop M rest depth (min ?rv beta) alpha (min ?rv beta) \<le> alpha)"
      using "5.IH"(2) [OF refl refl refl False le] by (simp add: cb)
    show ?thesis
    proof (cases "alpha \<le> ?vx")
      case True
      with ag have "min ?rv beta = min ?vx beta"
        unfolding agree_def by (auto simp: min_def)
      with ih show ?thesis unfolding W r by simp
    next
      case False
      with ag le have "min ?rv beta = alpha"
        unfolding agree_def by (auto simp: min_def split: if_splits)
      moreover have "fold min ?vs alpha \<le> alpha" by (rule fold_min_le)
      moreover have "fold min ?vs (min ?vx beta) \<le> min ?vx beta" by (rule fold_min_le)
      ultimately show ?thesis using ih False unfolding W r by auto
    qed
  qed
qed

text \<open>
  Started with the sentinels, the pruned search returns the plain search's score whenever
  that score lies between the sentinels.
\<close>

lemma minimaxAlphaBeta_eq_minimax_in_window:
  assumes "- 10000000 \<le> minimax P D M" and "minimax P D M \<le> 10000000"
  shows "minimaxAlphaBeta P D M = minimax P D M"
  using alphabeta_window(1) [of "- 10000000" 10000000 M P D] assms
  by (simp add: agree_def minimaxAlphaBeta_def)

text \<open>
  Claim C1. The pruned search is to return exactly the score of the plain search for every
  position, depth \<open>D \<ge> 0\<close> and maximizing player. The source says the same of
  \<^verbatim>\<open>minimaxAlphaBeta\<close> (``Input and output are same as for minimax''). The code breaks it:
  one line of four is worth \<open>100 ^ 4 = 100000000\<close>, ten times the sentinel \<open>10000000\<close>
  the search starts from, and the running best is seeded with the sentinel. At
  \<open>xForcedLoss\<close>, where x loses to a line of four whatever is played, the plain search at
  depth 2 returns \<open>-100000000\<close> and the pruned search returns the sentinel \<open>-10000000\<close>.
\<close>

theorem minimaxAlphaBeta_differs_from_minimax:
  "minimax xForcedLoss 2 PlayerX = - 100000000 \<and>
   minimaxAlphaBeta xForcedLoss 2 PlayerX = - 10000000"
  by (simp add: example_defs run_defs)

section \<open>Order of the successors\<close>

lemma minimax_reordered:
  "reordered P P' \<Longrightarrow> minimax P D M = minimax P' D M"
proof (induction arbitrary: D rule: reordered.induct)
  case (1 ss ts ts' p f)
  let ?g = "\<lambda>s. minimax s (D - 1) M"
  from "1.IH" have maps: "map ?g ss = map ?g ts"
    by (induction ss ts rule: list_all2_induct) simp_all
  from "1.IH" have len: "length ss = length ts"
    by (rule list_all2_lengthD)
  from "1.hyps" have len': "length ts' = length ts"
    by (rule mset_eq_length)
  from "1.hyps" have "set ts' = set ts"
    by (rule mset_eq_setD)
  then have sets: "set (map ?g ts') = set (map ?g ss)"
    using maps by (metis set_map)
  have base: "isBaseCase (Position p f ts') D = isBaseCase (Position p f ss) D"
    using len len' by (simp add: isBaseCase_def del: length_0_conv)
  have heur: "heuristic (Position p f ts') M = heuristic (Position p f ss) M"
    by (simp add: heuristic_def advantageFunction_def)
  show ?case
  proof (cases "isBaseCase (Position p f ss) D")
    case True
    with base heur show ?thesis by (simp add: minimax.simps)
  next
    case False
    then have ne: "map ?g ss \<noteq> []" by (simp add: isBaseCase_def)
    from False base have False': "\<not> isBaseCase (Position p f ts') D" by simp
    from False' have ne': "map ?g ts' \<noteq> []" by (simp add: isBaseCase_def)
    have "Math_max (map ?g ts') = Math_max (map ?g ss)"
      by (simp only: Math_max_eq_Max [OF ne] Math_max_eq_Max [OF ne'] sets)
    moreover have "Math_min (map ?g ts') = Math_min (map ?g ss)"
      by (simp only: Math_min_eq_Min [OF ne] Math_min_eq_Min [OF ne'] sets)
    ultimately show ?thesis
      using False False' by (simp add: Let_def minimax.simps [of "Position p f ss"]
          minimax.simps [of "Position p f ts'"])
  qed
qed

lemma reordered_refl: "reordered P P"
proof (induction P)
  case (Position p f ss)
  then have "list_all2 reordered ss ss"
    by (simp add: list_all2_same)
  then show ?case by (rule reordered.intros) simp
qed

lemma xWinsEither_reordered: "reordered xWinsEither xWinsEitherSwapped"
  unfolding xWinsEither_def xWinsEitherSwapped_def
  by (rule reordered.intros [where ts = "[xFourOnce, xFourTwice]"])
    (simp_all add: reordered_refl)

lemma minimaxAlphaBeta_reordered_in_window:
  assumes "reordered P P'"
    and "- 10000000 \<le> minimax P D M" and "minimax P D M \<le> 10000000"
  shows "minimaxAlphaBeta P D M = minimaxAlphaBeta P' D M"
proof -
  have same: "minimax P' D M = minimax P D M"
    using assms(1) by (simp add: minimax_reordered)
  have "minimaxAlphaBeta P D M = minimax P D M"
    using assms(2,3) by (rule minimaxAlphaBeta_eq_minimax_in_window)
  moreover have "minimaxAlphaBeta P' D M = minimax P' D M"
    using assms(2,3) same by (simp add: minimaxAlphaBeta_eq_minimax_in_window)
  ultimately show ?thesis using same by simp
qed

text \<open>
  Claim C5. Permuting the successor sequences is to leave the score of both searches
  unchanged. The plain search satisfies this (\<open>minimax_reordered\<close>), and so does the
  pruned search while the plain score lies between the sentinels
  (\<open>minimaxAlphaBeta_reordered_in_window\<close>). Beyond them the pruned search does not:
  \<open>xWinsEither\<close> and \<open>xWinsEitherSwapped\<close> have the same next mover, the same line
  counts and the same two successors in opposite orders, yet at depth 1 the pruned search
  returns \<open>100000000\<close> for one and \<open>200000000\<close> for the other, because the first child
  already exceeds the sentinel \<open>10000000\<close> and ends the loop.
\<close>

theorem minimaxAlphaBeta_depends_on_successor_order:
  "nextMovePlayer xWinsEitherSwapped = nextMovePlayer xWinsEither \<and>
   numLines xWinsEitherSwapped = numLines xWinsEither \<and>
   mset (nextStates xWinsEitherSwapped) = mset (nextStates xWinsEither) \<and>
   minimaxAlphaBeta xWinsEither 1 PlayerX = 100000000 \<and>
   minimaxAlphaBeta xWinsEitherSwapped 1 PlayerX = 200000000 \<and>
   minimax xWinsEither 1 PlayerX = 200000000 \<and>
   minimax xWinsEitherSwapped 1 PlayerX = 200000000"
  by (simp add: example_defs run_defs)

end
